theory Spec2Isabelle
  imports Main "HOL-Library.Word" "HOL-Library.Sublist"
begin

section \<open>Strings, errors and the result record\<close>

text \<open>
  A JavaScript string is a sequence of UTF-16 code units; \<open>data[i]\<close>, \<open>data.length\<close>
  and \<open>substring\<close> all count code units. A code unit is a 16-bit word, a string a list
  of them. Lists and counts are unbounded here: an engine's limit on the length of a
  string and the 53 bits of exact integers in a \<open>number\<close> are not part of the model.
\<close>

type_synonym sym = "16 word"
type_synonym jsstring = "sym list"

text \<open>String literals of the source, written with the ASCII characters they hold.\<close>

definition js :: "string \<Rightarrow> jsstring" where
  "js s = map of_char s"

text \<open>
  What the code throws: \<open>new Error(message)\<close>, the \<open>TypeError\<close> of a method call on
  \<open>undefined\<close>, and the \<open>SyntaxError\<close> of \<open>JSON.parse\<close>.
\<close>

datatype js_error = Error jsstring | TypeError | SyntaxError

text \<open>
  \<open>for (const char of data)\<close> iterates code points: a high surrogate followed by a low
  surrogate is one element of two code units, every other code unit is an element of
  its own.
\<close>

definition isHighSurrogate :: "sym \<Rightarrow> bool" where
  "isHighSurrogate c = (0xD800 \<le> c \<and> c \<le> 0xDBFF)"

definition isLowSurrogate :: "sym \<Rightarrow> bool" where
  "isLowSurrogate c = (0xDC00 \<le> c \<and> c \<le> 0xDFFF)"

fun codePoints :: "jsstring \<Rightarrow> jsstring list" where
  "codePoints [] = []"
| "codePoints [c] = [[c]]"
| "codePoints (c # d # cs) =
     (if isHighSurrogate c \<and> isLowSurrogate d then [c, d] # codePoints cs
      else [c] # codePoints (d # cs))"

text \<open>
  \<open>new Blob([data]).size\<close> is the length of the UTF-8 encoding of the string, a lone
  surrogate being encoded as U+FFFD (three bytes).
\<close>

fun utf8Length :: "jsstring \<Rightarrow> nat" where
  "utf8Length [c] = (if c < 0x80 then 1 else if c < 0x800 then 2 else 3)"
| "utf8Length cp = (if cp = [] then 0 else 4)"

definition blobSize :: "jsstring \<Rightarrow> nat" where
  "blobSize data = sum_list (map utf8Length (codePoints data))"

text \<open>
  The \<open>CompressionResult\<close> of the source. Its fields \<open>compressedSize\<close>,
  \<open>compressionRatio\<close> and \<open>processingTime\<close> are derived metrics (a size estimate, a
  floating-point percentage, a wall-clock difference); no property below reads them and
  they are left out of the record.
\<close>

record CompressionResult =
  originalSize :: nat
  algorithm :: jsstring
  compressedData :: jsstring
  originalData :: jsstring

section \<open>Huffman coding\<close>

text \<open>
  The class \<open>HuffmanNode\<close>: \<open>char\<close> is a string or \<open>null\<close>, \<open>left\<close> and \<open>right\<close> are
  nodes or \<open>null\<close>. The constructor of the source sets both children to \<open>null\<close>.
\<close>

datatype HuffmanNode =
  HuffmanNode (char: "jsstring option") (freq: nat)
    (left: "HuffmanNode option") (right: "HuffmanNode option")

text \<open>
  A JavaScript \<open>Map\<close> keeps its keys in insertion order: it is the list of its
  entries. \<open>set\<close> on a key of the map replaces the value in place, \<open>set\<close> on a new key
  appends an entry; \<open>get\<close> is \<open>map_of\<close>, with \<open>None\<close> for \<open>undefined\<close>.
\<close>

fun map_set :: "('k \<times> 'v) list \<Rightarrow> 'k \<Rightarrow> 'v \<Rightarrow> ('k \<times> 'v) list" where
  "map_set [] k v = [(k, v)]"
| "map_set ((k', v') # m) k v = (if k' = k then (k, v) # m else (k', v') # map_set m k v)"

text \<open>\<open>freqTable.set(char, (freqTable.get(char) || 0) + 1)\<close> for each code point.\<close>

definition buildFrequencyTable :: "jsstring \<Rightarrow> (jsstring \<times> nat) list" where
  "buildFrequencyTable data =
     foldl (\<lambda>freqTable char.
              map_set freqTable char
                ((case map_of freqTable char of None \<Rightarrow> 0 | Some n \<Rightarrow> n) + 1))
       [] (codePoints data)"

text \<open>
  The \<open>while\<close> loop of \<open>buildHuffmanTree\<close>: sort by frequency, shift the two first
  nodes, push their parent. \<open>Array.prototype.sort\<close> is stable, as \<open>sort_key\<close> is.
\<close>

function mergeLoop :: "HuffmanNode list \<Rightarrow> HuffmanNode list" where
  "mergeLoop nodes =
     (if length nodes > 1
      then (let sorted = sort_key freq nodes;
                left = hd sorted;
                right = hd (tl sorted);
                rest = tl (tl sorted);
                parent = HuffmanNode None (freq left + freq right) (Some left) (Some right)
            in mergeLoop (rest @ [parent]))
      else nodes)"
  by pat_completeness auto
termination
  by (relation "measure length") auto

declare mergeLoop.simps [simp del]

text \<open>
  \<open>buildHuffmanTree\<close> returns \<open>null\<close> for an empty table, the only leaf for a table of
  one symbol, and otherwise \<open>nodes[0]\<close> after the loop.
\<close>

definition buildHuffmanTree :: "(jsstring \<times> nat) list \<Rightarrow> HuffmanNode option" where
  "buildHuffmanTree freqTable =
     (let nodes = map (\<lambda>(char, freq). HuffmanNode (Some char) freq None None) freqTable
      in if length nodes = 0 then None
         else if length nodes = 1 then Some (nodes ! 0)
         else (case mergeLoop nodes of [] \<Rightarrow> None | root # _ \<Rightarrow> Some root))"

text \<open>
  \<open>generateCodes(root, code, codes)\<close> with the map \<open>codes\<close> threaded through the two
  recursive calls; \<open>code || '0'\<close> is \<open>'0'\<close> for the empty \<open>code\<close>.
\<close>

fun generateCodes ::
  "HuffmanNode option \<Rightarrow> jsstring \<Rightarrow> (jsstring \<times> jsstring) list \<Rightarrow> (jsstring \<times> jsstring) list" where
  "generateCodes None code codes = codes"
| "generateCodes (Some (HuffmanNode (Some c) f l r)) code codes =
     map_set codes c (if code = [] then js ''0'' else code)"
| "generateCodes (Some (HuffmanNode None f l r)) code codes =
     generateCodes r (code @ js ''1'') (generateCodes l (code @ js ''0'') codes)"

text \<open>\<open>huffmanCompress\<close>: the bit string is the concatenation of \<open>codes.get(char) || \<close>\<open>''\<close>.\<close>

definition huffmanCompress :: "jsstring \<Rightarrow> CompressionResult" where
  "huffmanCompress data =
     (let freqTable = buildFrequencyTable data;
          root = buildHuffmanTree freqTable;
          codes = generateCodes root [] [];
          compressed = concat (map (\<lambda>char. case map_of codes char of None \<Rightarrow> [] | Some code \<Rightarrow> code)
                                 (codePoints data))
      in \<lparr> originalSize = blobSize data,
           algorithm = js ''Huffman Coding'',
           compressedData = compressed,
           originalData = data \<rparr>)"

section \<open>Run-Length Encoding\<close>

text \<open>The regular expressions \<open>/\d/\<close> and \<open>/[^a-zA-Z0-9]/\<close> on a one-unit string.\<close>

definition isDigit :: "sym \<Rightarrow> bool" where
  "isDigit c = (0x30 \<le> c \<and> c \<le> 0x39)"

definition isAlnum :: "sym \<Rightarrow> bool" where
  "isAlnum c = ((0x61 \<le> c \<and> c \<le> 0x7A) \<or> (0x41 \<le> c \<and> c \<le> 0x5A) \<or> isDigit c)"

text \<open>The decimal rendering of a count by the template literal \<open>`${count}`\<close>.\<close>

definition digitChar :: "nat \<Rightarrow> sym" where
  "digitChar d = of_nat (48 + d)"

fun numberToString :: "nat \<Rightarrow> jsstring" where
  "numberToString n =
     (if n < 10 then [digitChar n] else numberToString (n div 10) @ [digitChar (n mod 10)])"

declare numberToString.simps [simp del]

text \<open>\<open>parseInt\<close> on a string of decimal digits.\<close>

definition digitValue :: "sym \<Rightarrow> nat" where
  "digitValue c = unat c - 48"

definition parseInt :: "jsstring \<Rightarrow> nat" where
  "parseInt numStr = foldl (\<lambda>acc c. 10 * acc + digitValue c) 0 numStr"

text \<open>
  The inner loop of \<open>rleCompress\<close>:
  \<open>while (i + count < data.length && data[i + count] === currentChar && count < 255) count++\<close>.
\<close>

function rleCount :: "jsstring \<Rightarrow> nat \<Rightarrow> sym \<Rightarrow> nat \<Rightarrow> nat" where
  "rleCount data i currentChar count =
     (if i + count < length data \<and> data ! (i + count) = currentChar \<and> count < 255
      then rleCount data i currentChar (count + 1)
      else count)"
  by pat_completeness auto
termination
  by (relation "measure (\<lambda>(data, i, c, count). length data - (i + count))") auto

declare rleCount.simps [simp del]

lemma rleCount_ge: "count \<le> rleCount data i c count"
proof (induction data i c count rule: rleCount.induct)
  case (1 data i c count)
  show ?case
  proof (cases "i + count < length data \<and> data ! (i + count) = c \<and> count < 255")
    case True
    with 1 have "count + 1 \<le> rleCount data i c (count + 1)" by blast
    with True show ?thesis by (subst rleCount.simps) simp
  next
    case False
    then show ?thesis by (subst rleCount.simps) auto
  qed
qed

text \<open>What one iteration of the outer loop appends to \<open>compressed\<close>.\<close>

definition rleEmit :: "nat \<Rightarrow> sym \<Rightarrow> jsstring" where
  "rleEmit count currentChar =
     (if count > 3 \<or> (count > 1 \<and> \<not> isAlnum currentChar)
      then numberToString count @ [currentChar]
      else replicate count currentChar)"

text \<open>The outer loop of \<open>rleCompress\<close>, with its cursor \<open>i\<close> and the output so far.\<close>

function rleLoop :: "jsstring \<Rightarrow> nat \<Rightarrow> jsstring \<Rightarrow> jsstring" where
  "rleLoop data i compressed =
     (if i < length data
      then (let currentChar = data ! i;
                count = rleCount data i currentChar 1
            in rleLoop data (i + count) (compressed @ rleEmit count currentChar))
      else compressed)"
  by pat_completeness auto
termination
proof (relation "measure (\<lambda>(data, i, compressed). length data - i)")
  show "wf (measure (\<lambda>(data, i, compressed). length data - i))" by simp
next
  fix data :: jsstring and i :: nat and compressed :: jsstring and x xa
  assume "i < length data" and "x = data ! i" and "xa = rleCount data i x 1"
  moreover have "1 \<le> rleCount data i x 1" by (rule rleCount_ge)
  ultimately show "((data, i + xa, compressed @ rleEmit xa x), (data, i, compressed))
      \<in> measure (\<lambda>(data, i, compressed). length data - i)"
    by simp
qed

declare rleLoop.simps [simp del]

definition rleCompress :: "jsstring \<Rightarrow> CompressionResult" where
  "rleCompress data =
     \<lparr> originalSize = blobSize data,
       algorithm = js ''Run-Length Encoding'',
       compressedData = rleLoop data 0 [],
       originalData = data \<rparr>"

text \<open>
  The digit-collecting loop of \<open>rleDecompress\<close>:
  \<open>while (i < compressed.length && /\d/.test(compressed[i])) { numStr += compressed[i]; i++ }\<close>;
  it returns the cursor and the digits read.
\<close>

function rleDigits :: "jsstring \<Rightarrow> nat \<Rightarrow> jsstring \<Rightarrow> nat \<times> jsstring" where
  "rleDigits compressed i numStr =
     (if i < length compressed \<and> isDigit (compressed ! i)
      then rleDigits compressed (i + 1) (numStr @ [compressed ! i])
      else (i, numStr))"
  by pat_completeness auto
termination
  by (relation "measure (\<lambda>(compressed, i, numStr). length compressed - i)") auto

declare rleDigits.simps [simp del]

lemma rleDigits_ge: "i \<le> fst (rleDigits compressed i numStr)"
proof (induction compressed i numStr rule: rleDigits.induct)
  case (1 compressed i numStr)
  show ?case
  proof (cases "i < length compressed \<and> isDigit (compressed ! i)")
    case True
    with 1 have "i + 1 \<le> fst (rleDigits compressed (i + 1) (numStr @ [compressed ! i]))"
      by blast
    with True show ?thesis by (subst rleDigits.simps) simp
  next
    case False
    then show ?thesis by (subst rleDigits.simps) auto
  qed
qed

text \<open>
  The loop of \<open>rleDecompress\<close>. After the digits, \<open>compressed[i]\<close> past the end is
  \<open>undefined\<close>, and \<open>char.repeat(count)\<close> then throws a \<open>TypeError\<close>.
\<close>

function rleDecLoop :: "jsstring \<Rightarrow> nat \<Rightarrow> jsstring \<Rightarrow> js_error + jsstring" where
  "rleDecLoop compressed i decompressed =
     (if i < length compressed
      then (if isDigit (compressed ! i)
            then (case rleDigits compressed i [] of (j, numStr) \<Rightarrow>
                    if j < length compressed
                    then rleDecLoop compressed (j + 1)
                           (decompressed @ replicate (parseInt numStr) (compressed ! j))
                    else Inl TypeError)
            else rleDecLoop compressed (i + 1) (decompressed @ [compressed ! i]))
      else Inr decompressed)"
  by pat_completeness auto
termination
proof (relation "measure (\<lambda>(compressed, i, decompressed). length compressed - i)", goal_cases)
  case 1
  show ?case by simp
next
  case (2 compressed i decompressed j numStr)
  have "i \<le> fst (rleDigits compressed i [])" by (rule rleDigits_ge)
  with 2 show ?case by (cases "rleDigits compressed i []") auto
next
  case (3 compressed i decompressed)
  then show ?case by simp
qed

declare rleDecLoop.simps [simp del]

definition rleDecompress :: "jsstring \<Rightarrow> js_error + jsstring" where
  "rleDecompress compressed = rleDecLoop compressed 0 []"

subsection \<open>Maximal runs\<close>

text \<open>
  The specification's reading of the encoder: the input is cut, left to right, into
  maximal runs of one symbol, a run being cut at 255. \<open>runLength c cs\<close> is the length
  of the run that starts with \<open>c\<close> and goes on into \<open>cs\<close>.
\<close>

definition runLength :: "sym \<Rightarrow> jsstring \<Rightarrow> nat" where
  "runLength c cs = min 255 (Suc (length (takeWhile (\<lambda>x. x = c) cs)))"

lemma runLength_bounds: "1 \<le> runLength c cs \<and> runLength c cs \<le> 255"
  by (simp add: runLength_def)

lemma runLength_le_length: "runLength c cs - 1 \<le> length cs"
proof -
  have "length (takeWhile (\<lambda>x. x = c) cs) \<le> length cs" by (rule length_takeWhile_le)
  then show ?thesis by (simp add: runLength_def)
qed

function rleRuns :: "jsstring \<Rightarrow> (nat \<times> sym) list" where
  "rleRuns [] = []"
| "rleRuns (c # cs) = (runLength c cs, c) # rleRuns (drop (runLength c cs - 1) cs)"
  by pat_completeness auto
termination
  by (relation "measure length") auto

subsection \<open>Decimal counts\<close>

lemma unat_digitChar: "d < 10 \<Longrightarrow> unat (digitChar d) = 48 + d"
  unfolding digitChar_def by (simp del: of_nat_add add: unat_of_nat)

lemma digitChar_isDigit: "d < 10 \<Longrightarrow> isDigit (digitChar d)"
  by (simp add: isDigit_def word_le_nat_alt unat_digitChar)

lemma digitValue_digitChar: "d < 10 \<Longrightarrow> digitValue (digitChar d) = d"
  by (simp add: digitValue_def unat_digitChar)

lemma numberToString_digits: "\<forall>c \<in> set (numberToString n). isDigit c"
proof (induction n rule: numberToString.induct)
  case (1 n)
  show ?case
  proof (cases "n < 10")
    case True
    then show ?thesis by (subst numberToString.simps) (simp add: digitChar_isDigit)
  next
    case False
    with 1 have "\<forall>c \<in> set (numberToString (n div 10)). isDigit c" by simp
    with False show ?thesis
      by (subst numberToString.simps) (simp add: digitChar_isDigit)
  qed
qed

lemma numberToString_nonempty: "numberToString n \<noteq> []"
  by (subst numberToString.simps) simp

lemma parseInt_snoc: "parseInt (ds @ [c]) = 10 * parseInt ds + digitValue c"
  by (simp add: parseInt_def)

lemma parseInt_numberToString: "parseInt (numberToString n) = n"
proof (induction n rule: numberToString.induct)
  case (1 n)
  show ?case
  proof (cases "n < 10")
    case True
    then show ?thesis
      by (subst numberToString.simps) (simp add: parseInt_def digitValue_digitChar)
  next
    case False
    with 1 have "parseInt (numberToString (n div 10)) = n div 10" by simp
    with False show ?thesis
      by (subst numberToString.simps) (simp add: parseInt_snoc digitValue_digitChar)
  qed
qed

lemma takeWhile_eq_replicate:
  "takeWhile (\<lambda>x. x = c) cs = replicate (length (takeWhile (\<lambda>x. x = c) cs)) c"
  by (induction cs) auto

lemma take_takeWhile:
  assumes "k \<le> length (takeWhile P cs)"
  shows "take k cs = take k (takeWhile P cs)"
proof -
  have "take k cs = take k (takeWhile P cs @ dropWhile P cs)" by simp
  also have "\<dots> = take k (takeWhile P cs)" using assms by (simp del: takeWhile_dropWhile_id)
  finally show ?thesis .
qed

lemma take_runLength: "take (runLength c cs - 1) cs = replicate (runLength c cs - 1) c"
proof -
  let ?t = "takeWhile (\<lambda>x. x = c) cs"
  have k: "runLength c cs - 1 \<le> length ?t" by (simp add: runLength_def)
  then have "take (runLength c cs - 1) cs = take (runLength c cs - 1) ?t"
    by (rule take_takeWhile)
  also have "\<dots> = take (runLength c cs - 1) (replicate (length ?t) c)"
    using takeWhile_eq_replicate [of c cs] by simp
  also have "\<dots> = replicate (runLength c cs - 1) c"
    using k by (simp add: min_def)
  finally show ?thesis .
qed

lemma rleCount_runLength:
  "count < 255 \<Longrightarrow> i + count \<le> length data \<Longrightarrow>
   rleCount data i c count =
     min 255 (count + length (takeWhile (\<lambda>x. x = c) (drop (i + count) data)))"
proof (induction data i c count rule: rleCount.induct)
  case (1 data i c count)
  show ?case
  proof (cases "i + count < length data \<and> data ! (i + count) = c")
    case True
    then have d: "drop (i + count) data = c # drop (i + (count + 1)) data"
      by (metis Cons_nth_drop_Suc add_Suc_right Suc_eq_plus1)
    show ?thesis
    proof (cases "count + 1 < 255")
      case True2: True
      with 1 True have "rleCount data i c (count + 1) =
          min 255 (count + 1 + length (takeWhile (\<lambda>x. x = c) (drop (i + (count + 1)) data)))"
        by simp
      with True 1(2) d show ?thesis by (subst rleCount.simps) simp
    next
      case False
      then have c254: "count = 254" using 1(2) by simp
      have "rleCount data i c (count + 1) = count + 1"
        using c254 by (subst rleCount.simps) simp
      with True 1(2) d c254 show ?thesis by (subst rleCount.simps) simp
    qed
  next
    case False
    then have "takeWhile (\<lambda>x. x = c) (drop (i + count) data) = []"
      using 1(3) by (cases "drop (i + count) data") (auto dest: nth_via_drop)
    with False 1(2) show ?thesis by (subst rleCount.simps) auto
  qed
qed

lemma rleCount_first:
  assumes "i < length data"
  shows "rleCount data i (data ! i) 1 = runLength (data ! i) (drop (Suc i) data)"
  using assms rleCount_runLength [of 1 i data "data ! i"] by (simp add: runLength_def)

subsection \<open>The encoder emits one token for each maximal run\<close>

lemma rleRuns_drop:
  assumes "i < length data"
  shows "rleRuns (drop i data) =
     (rleCount data i (data ! i) 1, data ! i) #
       rleRuns (drop (i + rleCount data i (data ! i) 1) data)"
proof -
  let ?c = "data ! i"
  let ?n = "rleCount data i ?c 1"
  have d: "drop i data = ?c # drop (Suc i) data"
    using assms by (simp add: Cons_nth_drop_Suc)
  have n: "?n = runLength ?c (drop (Suc i) data)"
    using assms by (rule rleCount_first)
  have "1 \<le> ?n" by (rule rleCount_ge)
  then have "drop (?n - 1) (drop (Suc i) data) = drop (i + ?n) data"
    by (simp add: add.commute)
  moreover have "rleRuns (?c # drop (Suc i) data) =
      (?n, ?c) # rleRuns (drop (?n - 1) (drop (Suc i) data))"
    unfolding n by (rule rleRuns.simps(2))
  ultimately have "rleRuns (?c # drop (Suc i) data) = (?n, ?c) # rleRuns (drop (i + ?n) data)"
    by (simp only:)
  with d show ?thesis by (simp only:)
qed

lemma rleLoop_runs:
  "rleLoop data i compressed =
     compressed @ concat (map (\<lambda>(n, c). rleEmit n c) (rleRuns (drop i data)))"
proof (induction data i compressed rule: rleLoop.induct)
  case (1 data i compressed)
  show ?case
  proof (cases "i < length data")
    case True
    define c where "c = data ! i"
    define n where "n = rleCount data i c 1"
    have "rleLoop data (i + n) (compressed @ rleEmit n c) =
        (compressed @ rleEmit n c) @
          concat (map (\<lambda>(n, c). rleEmit n c) (rleRuns (drop (i + n) data)))"
      using 1 True c_def n_def by simp
    moreover have "rleLoop data i compressed = rleLoop data (i + n) (compressed @ rleEmit n c)"
      using True by (subst rleLoop.simps) (simp add: c_def n_def Let_def)
    moreover have "rleRuns (drop i data) = (n, c) # rleRuns (drop (i + n) data)"
      using rleRuns_drop [OF True] by (simp add: c_def n_def)
    ultimately show ?thesis by simp
  next
    case False
    then show ?thesis by (subst rleLoop.simps) simp
  qed
qed

lemma rleRuns_concat: "concat (map (\<lambda>(n, c). replicate n c) (rleRuns xs)) = xs"
proof (induction xs rule: rleRuns.induct)
  case 1
  show ?case by simp
next
  case (2 c cs)
  let ?n = "runLength c cs"
  have "1 \<le> ?n" using runLength_bounds by blast
  then have "replicate ?n c = c # replicate (?n - 1) c"
    by (cases ?n) simp_all
  moreover have "replicate (?n - 1) c @ drop (?n - 1) cs = cs"
    using take_runLength [of c cs] append_take_drop_id [of "?n - 1" cs] by simp
  ultimately have "replicate ?n c @ drop (?n - 1) cs = c # cs" by simp
  with 2 show ?case by simp
qed

lemma rleRuns_set: "(n, c) \<in> set (rleRuns xs) \<Longrightarrow> 1 \<le> n \<and> n \<le> 255 \<and> c \<in> set xs"
proof (induction xs rule: rleRuns.induct)
  case 1
  then show ?case by simp
next
  case (2 d cs)
  from 2(2) have "(n, c) = (runLength d cs, d) \<or> (n, c) \<in> set (rleRuns (drop (runLength d cs - 1) cs))"
    by simp
  then show ?case
  proof
    assume "(n, c) = (runLength d cs, d)"
    then show ?thesis using runLength_bounds [of d cs] by simp
  next
    assume "(n, c) \<in> set (rleRuns (drop (runLength d cs - 1) cs))"
    with 2(1) have "1 \<le> n \<and> n \<le> 255 \<and> c \<in> set (drop (runLength d cs - 1) cs)" by simp
    then show ?thesis by (auto dest: in_set_dropD)
  qed
qed

subsection \<open>The decoder on the encoder's tokens\<close>

lemma rleDigits_scan:
  "cs = pre @ ds @ post \<Longrightarrow> \<forall>d \<in> set ds. isDigit d \<Longrightarrow> post = [] \<or> \<not> isDigit (hd post) \<Longrightarrow>
   rleDigits cs (length pre) numStr = (length pre + length ds, numStr @ ds)"
proof (induction ds arbitrary: pre numStr)
  case Nil
  then have "\<not> (length pre < length cs \<and> isDigit (cs ! length pre))"
    by (cases post) (auto simp: nth_append)
  then show ?case by (subst rleDigits.simps) auto
next
  case (Cons d ds)
  have cs: "cs = (pre @ [d]) @ ds @ post" using Cons.prems(1) by simp
  have "rleDigits cs (length (pre @ [d])) (numStr @ [d]) =
      (length (pre @ [d]) + length ds, (numStr @ [d]) @ ds)"
    using Cons.prems by (intro Cons.IH [OF cs]) simp_all
  moreover have "length pre < length cs" and "cs ! length pre = d" and "isDigit d"
    using Cons.prems by (simp_all add: nth_append)
  ultimately show ?case by (subst rleDigits.simps) simp
qed

lemma rleDecLoop_literals:
  "cs = pre @ replicate k c @ post \<Longrightarrow> \<not> isDigit c \<Longrightarrow>
   rleDecLoop cs (length pre) acc = rleDecLoop cs (length pre + k) (acc @ replicate k c)"
proof (induction k arbitrary: pre acc)
  case 0
  show ?case by simp
next
  case (Suc k)
  have cs: "cs = (pre @ [c]) @ replicate k c @ post" using Suc.prems(1) by simp
  have "rleDecLoop cs (length (pre @ [c])) (acc @ [c]) =
      rleDecLoop cs (length (pre @ [c]) + k) ((acc @ [c]) @ replicate k c)"
    using Suc.prems(2) by (rule Suc.IH [OF cs])
  moreover have "length pre < length cs \<and> cs ! length pre = c"
    using Suc.prems(1) by (simp add: nth_append)
  ultimately show ?case
    using Suc.prems(2) by (subst rleDecLoop.simps) (simp add: replicate_app_Cons_same)
qed

lemma rleDecLoop_count:
  assumes cs: "cs = pre @ ds @ c # post" and ne: "ds \<noteq> []"
    and ds: "\<forall>d \<in> set ds. isDigit d" and c: "\<not> isDigit c"
  shows "rleDecLoop cs (length pre) acc =
     rleDecLoop cs (length pre + length ds + 1) (acc @ replicate (parseInt ds) c)"
proof -
  have scan: "rleDigits cs (length pre) [] = (length pre + length ds, [] @ ds)"
    using cs ds c by (intro rleDigits_scan [where post = "c # post"]) simp_all
  have first: "length pre < length cs \<and> isDigit (cs ! length pre)"
    using cs ne ds by (cases ds) (simp_all add: nth_append)
  have j: "length pre + length ds < length cs \<and> cs ! (length pre + length ds) = c"
    using cs by (simp add: nth_append)
  show ?thesis
    using scan first j by (subst rleDecLoop.simps) simp
qed

lemma rleDecLoop_emit:
  assumes cs: "cs = pre @ rleEmit n c @ post" and c: "\<not> isDigit c"
  shows "rleDecLoop cs (length pre) acc =
     rleDecLoop cs (length pre + length (rleEmit n c)) (acc @ replicate n c)"
proof (cases "n > 3 \<or> (n > 1 \<and> \<not> isAlnum c)")
  case True
  then have e: "rleEmit n c = numberToString n @ [c]" by (simp add: rleEmit_def)
  have "cs = pre @ numberToString n @ c # post" using cs e by simp
  then have "rleDecLoop cs (length pre) acc =
      rleDecLoop cs (length pre + length (numberToString n) + 1)
        (acc @ replicate (parseInt (numberToString n)) c)"
    using numberToString_nonempty numberToString_digits c by (rule rleDecLoop_count)
  then show ?thesis by (simp add: e parseInt_numberToString)
next
  case False
  then have e: "rleEmit n c = replicate n c" by (auto simp: rleEmit_def)
  have "cs = pre @ replicate n c @ post" using cs e by simp
  then have "rleDecLoop cs (length pre) acc =
      rleDecLoop cs (length pre + n) (acc @ replicate n c)"
    using c by (rule rleDecLoop_literals)
  then show ?thesis by (simp add: e)
qed

lemma rleDecLoop_runs:
  "cs = pre @ concat (map (\<lambda>(n, c). rleEmit n c) rs) \<Longrightarrow> \<forall>(n, c) \<in> set rs. \<not> isDigit c \<Longrightarrow>
   rleDecLoop cs (length pre) acc = Inr (acc @ concat (map (\<lambda>(n, c). replicate n c) rs))"
proof (induction rs arbitrary: pre acc)
  case Nil
  then show ?case by (subst rleDecLoop.simps) simp
next
  case (Cons r rs)
  obtain n c where r: "r = (n, c)" by (cases r)
  have c: "\<not> isDigit c" using Cons.prems(2) r by simp
  have cs1: "cs = pre @ rleEmit n c @ concat (map (\<lambda>(n, c). rleEmit n c) rs)"
    using Cons.prems(1) r by simp
  have cs2: "cs = (pre @ rleEmit n c) @ concat (map (\<lambda>(n, c). rleEmit n c) rs)"
    using cs1 by simp
  have "rleDecLoop cs (length pre) acc =
      rleDecLoop cs (length pre + length (rleEmit n c)) (acc @ replicate n c)"
    using cs1 c by (rule rleDecLoop_emit)
  also have "\<dots> = rleDecLoop cs (length (pre @ rleEmit n c)) (acc @ replicate n c)"
    by simp
  also have "\<dots> = Inr ((acc @ replicate n c) @ concat (map (\<lambda>(n, c). replicate n c) rs))"
    using Cons.prems(2) by (intro Cons.IH [OF cs2]) simp
  finally show ?case by (simp add: r)
qed

lemma rle_roundtrip_digit_free:
  assumes "\<forall>c \<in> set x. \<not> isDigit c"
  shows "rleDecLoop (rleLoop x 0 []) 0 [] = Inr x"
proof -
  have "rleLoop x 0 [] = [] @ concat (map (\<lambda>(n, c). rleEmit n c) (rleRuns x))"
    using rleLoop_runs [of x 0 "[]"] by simp
  moreover have "\<forall>(n, c) \<in> set (rleRuns x). \<not> isDigit c"
    using assms rleRuns_set by blast
  ultimately have "rleDecLoop (rleLoop x 0 []) (length ([] :: jsstring)) [] =
      Inr ([] @ concat (map (\<lambda>(n, c). replicate n c) (rleRuns x)))"
    by (rule rleDecLoop_runs)
  then show ?thesis by (simp add: rleRuns_concat)
qed

lemma rleDigits_stop:
  "rleDigits cs i numStr = (j, ds) \<Longrightarrow> length cs \<le> j \<or> \<not> isDigit (cs ! j)"
proof (induction cs i numStr rule: rleDigits.induct)
  case (1 cs i numStr)
  show ?case
  proof (cases "i < length cs \<and> isDigit (cs ! i)")
    case True
    then have "rleDigits cs i numStr = rleDigits cs (i + 1) (numStr @ [cs ! i])"
      by (subst rleDigits.simps) simp
    with 1 True show ?thesis by simp
  next
    case False
    then have "rleDigits cs i numStr = (i, numStr)" by (subst rleDigits.simps) auto
    with 1(2) False show ?thesis by auto
  qed
qed

lemma rleDecLoop_no_digit:
  "rleDecLoop cs i acc = Inr out \<Longrightarrow> \<forall>c \<in> set acc. \<not> isDigit c \<Longrightarrow> \<forall>c \<in> set out. \<not> isDigit c"
proof (induction cs i acc rule: rleDecLoop.induct)
  case (1 cs i acc)
  show ?case
  proof (cases "i < length cs")
    case False
    then have "rleDecLoop cs i acc = Inr acc" by (subst rleDecLoop.simps) simp
    with 1(3,4) show ?thesis by simp
  next
    case True
    show ?thesis
    proof (cases "isDigit (cs ! i)")
      case False
      then have "rleDecLoop cs i acc = rleDecLoop cs (i + 1) (acc @ [cs ! i])"
        using True by (subst rleDecLoop.simps) simp
      with 1(2) [OF True False] 1(3,4) False show ?thesis by simp
    next
      case digit: True
      obtain j numStr where d: "rleDigits cs i [] = (j, numStr)"
        by (cases "rleDigits cs i []")
      show ?thesis
      proof (cases "j < length cs")
        case False
        then have "rleDecLoop cs i acc = Inl TypeError"
          using True digit d by (subst rleDecLoop.simps) simp
        with 1(3) show ?thesis by simp
      next
        case j: True
        then have "\<not> isDigit (cs ! j)" using rleDigits_stop [OF d] by simp
        with 1(4) have acc: "\<forall>c \<in> set (acc @ replicate (parseInt numStr) (cs ! j)). \<not> isDigit c"
          by auto
        have "rleDecLoop cs i acc =
            rleDecLoop cs (j + 1) (acc @ replicate (parseInt numStr) (cs ! j))"
          using True digit d j by (subst rleDecLoop.simps) simp
        with 1(3) have "rleDecLoop cs (j + 1) (acc @ replicate (parseInt numStr) (cs ! j)) = Inr out"
          by simp
        then show ?thesis
          using acc by (rule 1(1) [OF True digit d [symmetric] j])
      qed
    qed
  qed
qed

section \<open>LZ77\<close>

text \<open>
  One element of the array \<open>compressed\<close> of \<open>lz77Compress\<close>:
  \<open>{ offset: number; length: number; nextChar: string }\<close>. The field \<open>length\<close> is
  named \<open>length_tok\<close>, for HOL has a \<open>length\<close> of lists. \<open>nextChar\<close> is a string of
  one code unit, or the empty string at the end of the input.
\<close>

record LZ77Token =
  offset :: nat
  length_tok :: nat
  nextChar :: jsstring

definition windowSize :: nat where
  "windowSize = 4096"

definition lookAheadSize :: nat where
  "lookAheadSize = 18"

text \<open>\<open>s.substring(a, b)\<close>: both indices are clamped to the string and swapped when \<open>a > b\<close>.\<close>

definition substring :: "jsstring \<Rightarrow> nat \<Rightarrow> nat \<Rightarrow> jsstring" where
  "substring s a b = (if a \<le> b then drop a (take b s) else drop b (take a s))"

text \<open>
  The \<open>while\<close> loop that extends a match from the window position \<open>j\<close>. The read
  \<open>window[j + matchLength]\<close> past the end of the window is \<open>undefined\<close>, which is not
  \<open>===\<close> to the string \<open>lookAhead[matchLength]\<close>: the loop stops there.
\<close>

function matchLoop :: "jsstring \<Rightarrow> jsstring \<Rightarrow> nat \<Rightarrow> nat \<Rightarrow> nat" where
  "matchLoop window lookAhead j matchLength =
     (if matchLength < length lookAhead \<and> matchLength < lookAheadSize \<and>
         j + matchLength < length window \<and>
         window ! (j + matchLength) = lookAhead ! matchLength
      then matchLoop window lookAhead j (matchLength + 1)
      else matchLength)"
  by pat_completeness auto
termination
  by (relation "measure (\<lambda>(window, lookAhead, j, matchLength). length lookAhead - matchLength)")
    auto

declare matchLoop.simps [simp del]

text \<open>
  The \<open>for\<close> loop over the window positions \<open>j\<close>; \<open>bestMatch\<close> is the pair of its
  \<open>offset\<close> and its \<open>length\<close>.
\<close>

function searchLoop :: "jsstring \<Rightarrow> jsstring \<Rightarrow> nat \<Rightarrow> nat \<times> nat \<Rightarrow> nat \<times> nat" where
  "searchLoop window lookAhead j bestMatch =
     (if j < length window
      then (let matchLength = matchLoop window lookAhead j 0
            in searchLoop window lookAhead (j + 1)
                 (if matchLength > snd bestMatch then (length window - j, matchLength)
                  else bestMatch))
      else bestMatch)"
  by pat_completeness auto
termination
  by (relation "measure (\<lambda>(window, lookAhead, j, bestMatch). length window - j)") auto

declare searchLoop.simps [simp del]

text \<open>
  The window and the look-ahead of the iteration at the cursor \<open>i\<close>;
  \<open>Math.max(0, i - windowSize)\<close> is the truncated difference of naturals.
\<close>

definition windowAt :: "jsstring \<Rightarrow> nat \<Rightarrow> jsstring" where
  "windowAt data i = (let windowStart = i - windowSize in substring data windowStart i)"

definition lookAheadAt :: "jsstring \<Rightarrow> nat \<Rightarrow> jsstring" where
  "lookAheadAt data i = substring data i (i + lookAheadSize)"

text \<open>The search of one iteration of the encoder, from \<open>bestMatch = { offset: 0, length: 0 }\<close>.\<close>

definition findBestMatch :: "jsstring \<Rightarrow> nat \<Rightarrow> nat \<times> nat" where
  "findBestMatch data i = searchLoop (windowAt data i) (lookAheadAt data i) 0 (0, 0)"

text \<open>The triple that the iteration at the cursor \<open>i\<close> pushes.\<close>

definition lz77Token :: "jsstring \<Rightarrow> nat \<Rightarrow> LZ77Token" where
  "lz77Token data i =
     (let bestMatch = findBestMatch data i
      in \<lparr> offset = fst bestMatch,
           length_tok = snd bestMatch,
           nextChar = (if i + snd bestMatch < length data then [data ! (i + snd bestMatch)]
                       else []) \<rparr>)"

text \<open>The encoder's loop: it pushes the triple and advances by \<open>Math.max(1, bestMatch.length)\<close>.\<close>

function lz77Loop :: "jsstring \<Rightarrow> nat \<Rightarrow> LZ77Token list \<Rightarrow> LZ77Token list" where
  "lz77Loop data i compressed =
     (if i < length data
      then lz77Loop data (i + max 1 (length_tok (lz77Token data i)))
             (compressed @ [lz77Token data i])
      else compressed)"
  by pat_completeness auto
termination
  by (relation "measure (\<lambda>(data, i, compressed). length data - i)") auto

declare lz77Loop.simps [simp del]

text \<open>
  \<open>JSON.stringify\<close> and \<open>JSON.parse\<close> belong to the platform, not to this program: the
  functions that call them take them as the parameters \<open>stringify\<close> and \<open>parse\<close>.
  \<open>parse\<close> returns the array of triples or the error it throws.
\<close>

definition lz77Compress :: "(LZ77Token list \<Rightarrow> jsstring) \<Rightarrow> jsstring \<Rightarrow> CompressionResult" where
  "lz77Compress stringify data =
     \<lparr> originalSize = blobSize data,
       algorithm = js ''LZ77'',
       compressedData = stringify (lz77Loop data 0 []),
       originalData = data \<rparr>"

text \<open>
  \<open>decompressed[k]\<close> as it is appended to a string: one code unit when \<open>k\<close> is an
  index of the string, and otherwise \<open>undefined\<close>, which \<open>+=\<close> appends as the text
  \<open>"undefined"\<close>.
\<close>

definition charAt :: "jsstring \<Rightarrow> int \<Rightarrow> jsstring" where
  "charAt s k = (if 0 \<le> k \<and> k < int (length s) then [s ! nat k] else js ''undefined'')"

text \<open>The copy loop \<open>for (let i = 0; i < token.length; i++) decompressed += decompressed[start + i]\<close>.\<close>

function lz77Copy :: "int \<Rightarrow> nat \<Rightarrow> nat \<Rightarrow> jsstring \<Rightarrow> jsstring" where
  "lz77Copy start len i decompressed =
     (if i < len
      then lz77Copy start len (i + 1) (decompressed @ charAt decompressed (start + int i))
      else decompressed)"
  by pat_completeness auto
termination
  by (relation "measure (\<lambda>(start, len, i, decompressed). len - i)") auto

declare lz77Copy.simps [simp del]

text \<open>The loop over the tokens; an empty \<open>nextChar\<close> is falsy and appends nothing.\<close>

fun lz77Replay :: "LZ77Token list \<Rightarrow> jsstring \<Rightarrow> jsstring" where
  "lz77Replay [] decompressed = decompressed"
| "lz77Replay (token # tokens) decompressed =
     (let copied =
            (if length_tok token > 0
             then lz77Copy (int (length decompressed) - int (offset token))
                    (length_tok token) 0 decompressed
             else decompressed);
          appended = (if nextChar token \<noteq> [] then copied @ nextChar token else copied)
      in lz77Replay tokens appended)"

definition lz77Decompress ::
  "(jsstring \<Rightarrow> js_error + LZ77Token list) \<Rightarrow> jsstring \<Rightarrow> js_error + jsstring" where
  "lz77Decompress parse compressed =
     (case parse compressed of
        Inl e \<Rightarrow> Inl e
      | Inr tokens \<Rightarrow> Inr (lz77Replay tokens []))"

section \<open>Decompression by algorithm name\<close>

text \<open>
  The \<open>switch\<close> of \<open>decompressData(compressedData, algorithm)\<close>. Its arguments are
  called \<open>compressed\<close> and \<open>algorithmName\<close> here, \<open>compressedData\<close> and
  \<open>algorithm\<close> being fields of the result record.
\<close>

definition decompressData ::
  "(jsstring \<Rightarrow> js_error + LZ77Token list) \<Rightarrow> jsstring \<Rightarrow> jsstring \<Rightarrow> js_error + jsstring" where
  "decompressData parse compressed algorithmName =
     (if algorithmName = js ''Run-Length Encoding'' then rleDecompress compressed
      else if algorithmName = js ''LZ77'' then lz77Decompress parse compressed
      else if algorithmName = js ''Huffman Coding''
        then Inr (js ''Huffman decompression requires the original code table'')
      else Inl (Error (js ''Unsupported algorithm: '' @ algorithmName)))"

section \<open>The match search\<close>

text \<open>
  The length of the longest common prefix of two sequences, as the specification
  describes the match of the look-ahead with the window read from a start position.
\<close>

fun lcp :: "'a list \<Rightarrow> 'a list \<Rightarrow> nat" where
  "lcp (x # xs) (y # ys) = (if x = y then Suc (lcp xs ys) else 0)"
| "lcp xs ys = 0"

lemma lcp_le_length: "lcp xs ys \<le> length ys"
  by (induction xs ys rule: lcp.induct) auto

lemma matchLoop_within_window:
  "j + matchLength \<le> length window \<Longrightarrow>
   j + matchLoop window lookAhead j matchLength \<le> length window"
proof (induction window lookAhead j matchLength rule: matchLoop.induct)
  case (1 window lookAhead j matchLength)
  show ?case
  proof (cases "matchLength < length lookAhead \<and> matchLength < lookAheadSize \<and>
         j + matchLength < length window \<and>
         window ! (j + matchLength) = lookAhead ! matchLength")
    case True
    with 1 have "j + matchLoop window lookAhead j (matchLength + 1) \<le> length window" by simp
    with True show ?thesis by (subst matchLoop.simps) simp
  next
    case False
    with 1(2) show ?thesis by (subst matchLoop.simps) auto
  qed
qed

lemma matchLoop_lcp:
  "matchLength \<le> lookAheadSize \<Longrightarrow>
   matchLoop window lookAhead j matchLength =
     min lookAheadSize
       (matchLength + lcp (drop (j + matchLength) window) (drop matchLength lookAhead))"
proof (induction window lookAhead j matchLength rule: matchLoop.induct)
  case (1 window lookAhead j matchLength)
  let ?w = "drop (j + matchLength) window" and ?l = "drop matchLength lookAhead"
  show ?case
  proof (cases "matchLength < length lookAhead \<and> matchLength < lookAheadSize \<and>
         j + matchLength < length window \<and>
         window ! (j + matchLength) = lookAhead ! matchLength")
    case True
    have inw: "j + matchLength < length window" and inl: "matchLength < length lookAhead"
      and same: "window ! (j + matchLength) = lookAhead ! matchLength"
      using True by simp_all
    have w: "?w = window ! (j + matchLength) # drop (j + (matchLength + 1)) window"
      using inw by (simp add: Cons_nth_drop_Suc)
    have l: "?l = lookAhead ! matchLength # drop (matchLength + 1) lookAhead"
      using inl by (simp add: Cons_nth_drop_Suc)
    have "lcp ?w ?l = Suc (lcp (drop (j + (matchLength + 1)) window)
        (drop (matchLength + 1) lookAhead))"
      unfolding w l using same by simp
    moreover have "matchLoop window lookAhead j (matchLength + 1) =
        min lookAheadSize (matchLength + 1 +
          lcp (drop (j + (matchLength + 1)) window) (drop (matchLength + 1) lookAhead))"
      using 1 True by simp
    moreover have "matchLoop window lookAhead j matchLength =
        matchLoop window lookAhead j (matchLength + 1)"
      using True by (subst matchLoop.simps) simp
    ultimately show ?thesis by simp
  next
    case False
    have stop: "matchLoop window lookAhead j matchLength = matchLength"
      using False by (subst matchLoop.simps) auto
    show ?thesis
    proof (cases "matchLength < lookAheadSize")
      case False
      with 1(2) stop show ?thesis by simp
    next
      case True
      have "lcp ?w ?l = 0"
      proof (cases ?w)
        case Nil
        then show ?thesis by simp
      next
        case w: (Cons a as)
        show ?thesis
        proof (cases ?l)
          case Nil
          then show ?thesis by (simp add: w)
        next
          case l: (Cons b bs)
          have "j + matchLength < length window" using w by (cases "j + matchLength < length window") simp_all
          moreover have "matchLength < length lookAhead" using l by (cases "matchLength < length lookAhead") simp_all
          moreover have "a = window ! (j + matchLength)" using w by (simp add: nth_via_drop)
          moreover have "b = lookAhead ! matchLength" using l by (simp add: nth_via_drop)
          ultimately have "a \<noteq> b" using False True by simp
          then show ?thesis by (simp add: w l)
        qed
      qed
      with stop True show ?thesis by simp
    qed
  qed
qed

lemma searchLoop_result:
  "searchLoop window lookAhead j bestMatch = r \<Longrightarrow>
   snd bestMatch \<le> snd r \<and>
   (\<forall>k. j \<le> k \<and> k < length window \<longrightarrow> matchLoop window lookAhead k 0 \<le> snd r) \<and>
   (r = bestMatch \<or>
    (\<exists>k. j \<le> k \<and> k < length window \<and>
         r = (length window - k, matchLoop window lookAhead k 0) \<and>
         snd bestMatch < matchLoop window lookAhead k 0 \<and>
         (\<forall>k'. j \<le> k' \<and> k' < k \<longrightarrow>
            matchLoop window lookAhead k' 0 < matchLoop window lookAhead k 0)))"
proof (induction window lookAhead j bestMatch arbitrary: r rule: searchLoop.induct)
  case (1 window lookAhead j bestMatch)
  let ?ml = "\<lambda>k. matchLoop window lookAhead k 0"
  show ?case
  proof (cases "j < length window")
    case False
    then have "searchLoop window lookAhead j bestMatch = bestMatch"
      by (subst searchLoop.simps) simp
    with 1(2) False show ?thesis by auto
  next
    case True
    define best' where "best' = (if ?ml j > snd bestMatch then (length window - j, ?ml j)
                  else bestMatch)"
    have "searchLoop window lookAhead j bestMatch = searchLoop window lookAhead (j + 1) best'"
      using True by (subst searchLoop.simps) (simp add: best'_def Let_def)
    with 1(2) have r: "searchLoop window lookAhead (j + 1) best' = r" by simp
    have ih: "snd best' \<le> snd r \<and>
       (\<forall>k. j + 1 \<le> k \<and> k < length window \<longrightarrow> ?ml k \<le> snd r) \<and>
       (r = best' \<or>
        (\<exists>k. j + 1 \<le> k \<and> k < length window \<and>
           r = (length window - k, ?ml k) \<and> snd best' < ?ml k \<and>
           (\<forall>k'. j + 1 \<le> k' \<and> k' < k \<longrightarrow> ?ml k' < ?ml k)))"
      using 1(1) [OF True refl r [unfolded best'_def]] by (simp add: best'_def)
    have b1: "snd bestMatch \<le> snd best'" and b2: "?ml j \<le> snd best'"
      by (simp_all add: best'_def)
    have A: "snd bestMatch \<le> snd r" using ih b1 by linarith
    have B: "\<forall>k. j \<le> k \<and> k < length window \<longrightarrow> ?ml k \<le> snd r"
    proof (intro allI impI)
      fix k assume k: "j \<le> k \<and> k < length window"
      show "?ml k \<le> snd r"
      proof (cases "k = j")
        case True
        then show ?thesis using ih b2 by simp
      next
        case False
        with k have "j + 1 \<le> k \<and> k < length window" by simp
        with ih show ?thesis by blast
      qed
    qed
    have C: "r = bestMatch \<or>
      (\<exists>k. j \<le> k \<and> k < length window \<and> r = (length window - k, ?ml k) \<and>
         snd bestMatch < ?ml k \<and> (\<forall>k'. j \<le> k' \<and> k' < k \<longrightarrow> ?ml k' < ?ml k))"
    proof -
      from ih consider (same) "r = best'"
        | (later) k where "j + 1 \<le> k" "k < length window" "r = (length window - k, ?ml k)"
            "snd best' < ?ml k" "\<forall>k'. j + 1 \<le> k' \<and> k' < k \<longrightarrow> ?ml k' < ?ml k"
        by blast
      then show ?thesis
      proof cases
        case same
        show ?thesis
        proof (cases "?ml j > snd bestMatch")
          case False
          with same show ?thesis by (simp add: best'_def)
        next
          case gt: True
          then have "r = (length window - j, ?ml j)" using same by (simp add: best'_def)
          with True gt have "j \<le> j \<and> j < length window \<and> r = (length window - j, ?ml j) \<and>
             snd bestMatch < ?ml j \<and> (\<forall>k'. j \<le> k' \<and> k' < j \<longrightarrow> ?ml k' < ?ml j)"
            by simp
          then show ?thesis by blast
        qed
      next
        case later
        have "\<forall>k'. j \<le> k' \<and> k' < k \<longrightarrow> ?ml k' < ?ml k"
        proof (intro allI impI)
          fix k' assume k': "j \<le> k' \<and> k' < k"
          show "?ml k' < ?ml k"
          proof (cases "k' = j")
            case True
            then show ?thesis using b2 later(4) by simp
          next
            case False
            with k' have "j + 1 \<le> k' \<and> k' < k" by simp
            with later(5) show ?thesis by blast
          qed
        qed
        moreover have "snd bestMatch < ?ml k" using b1 later(4) by linarith
        moreover have "j \<le> k" using later(1) by simp
        ultimately show ?thesis using later(2,3) by blast
      qed
    qed
    from A B C show ?thesis by blast
  qed
qed

lemma lz77Loop_tokens:
  "t \<in> set (lz77Loop data i compressed) \<Longrightarrow>
   t \<in> set compressed \<or> (\<exists>k. i \<le> k \<and> k < length data \<and> t = lz77Token data k)"
proof (induction data i compressed rule: lz77Loop.induct)
  case (1 data i compressed)
  show ?case
  proof (cases "i < length data")
    case False
    then have "lz77Loop data i compressed = compressed" by (subst lz77Loop.simps) simp
    with 1(2) show ?thesis by simp
  next
    case True
    let ?i' = "i + max 1 (length_tok (lz77Token data i))"
    have "lz77Loop data i compressed = lz77Loop data ?i' (compressed @ [lz77Token data i])"
      using True by (subst lz77Loop.simps) simp
    with 1(2) have "t \<in> set (lz77Loop data ?i' (compressed @ [lz77Token data i]))" by simp
    then have "t \<in> set (compressed @ [lz77Token data i]) \<or>
        (\<exists>k. ?i' \<le> k \<and> k < length data \<and> t = lz77Token data k)"
      by (rule 1(1) [OF True])
    then consider "t \<in> set compressed" | "t = lz77Token data i"
      | k where "?i' \<le> k" "k < length data" "t = lz77Token data k"
      by auto
    then show ?thesis
    proof cases
      case 1
      then show ?thesis by simp
    next
      case 2
      with True show ?thesis by blast
    next
      case 3
      then have "i \<le> k" by simp
      with 3 show ?thesis by blast
    qed
  qed
qed

lemma length_lookAheadAt: "length (lookAheadAt data i) \<le> lookAheadSize"
  by (simp add: lookAheadAt_def substring_def)

lemma matchLoop_eq_lcp:
  "matchLoop (windowAt data i) (lookAheadAt data i) j 0 =
     lcp (drop j (windowAt data i)) (lookAheadAt data i)"
proof -
  have "lcp (drop j (windowAt data i)) (lookAheadAt data i) \<le> lookAheadSize"
    using lcp_le_length [of "drop j (windowAt data i)" "lookAheadAt data i"]
      length_lookAheadAt [of data i] by linarith
  then show ?thesis
    using matchLoop_lcp [of 0 "windowAt data i" "lookAheadAt data i" j] by simp
qed

lemma findBestMatch_cases:
  "findBestMatch data i = (0, 0) \<or>
   (\<exists>k < length (windowAt data i).
      findBestMatch data i =
        (length (windowAt data i) - k, lcp (drop k (windowAt data i)) (lookAheadAt data i)) \<and>
      0 < lcp (drop k (windowAt data i)) (lookAheadAt data i) \<and>
      (\<forall>k' < k. lcp (drop k' (windowAt data i)) (lookAheadAt data i) <
         lcp (drop k (windowAt data i)) (lookAheadAt data i)))"
  using searchLoop_result [of "windowAt data i" "lookAheadAt data i" 0 "(0, 0)", OF refl]
  by (simp add: findBestMatch_def matchLoop_eq_lcp)

lemma findBestMatch_maximal:
  "k < length (windowAt data i) \<Longrightarrow>
   lcp (drop k (windowAt data i)) (lookAheadAt data i) \<le> snd (findBestMatch data i)"
  using searchLoop_result [of "windowAt data i" "lookAheadAt data i" 0 "(0, 0)", OF refl]
  by (simp add: findBestMatch_def matchLoop_eq_lcp)

lemma lcp_drop_le: "k \<le> length xs \<Longrightarrow> k + lcp (drop k xs) ys \<le> length xs"
proof -
  have "lcp zs ys \<le> length zs" for zs :: "'a list"
    by (induction zs ys rule: lcp.induct) auto
  from this [of "drop k xs"] show "k \<le> length xs \<Longrightarrow> k + lcp (drop k xs) ys \<le> length xs"
    by simp
qed

lemma findBestMatch_in_window: "snd (findBestMatch data i) \<le> fst (findBestMatch data i)"
proof -
  from findBestMatch_cases [of data i] show ?thesis
  proof
    assume "findBestMatch data i = (0, 0)"
    then show ?thesis by simp
  next
    assume "\<exists>k < length (windowAt data i).
      findBestMatch data i =
        (length (windowAt data i) - k, lcp (drop k (windowAt data i)) (lookAheadAt data i)) \<and>
      0 < lcp (drop k (windowAt data i)) (lookAheadAt data i) \<and>
      (\<forall>k' < k. lcp (drop k' (windowAt data i)) (lookAheadAt data i) <
         lcp (drop k (windowAt data i)) (lookAheadAt data i))"
    then obtain k where k: "k < length (windowAt data i)"
      and r: "findBestMatch data i =
        (length (windowAt data i) - k, lcp (drop k (windowAt data i)) (lookAheadAt data i))"
      by blast
    from k have "k + lcp (drop k (windowAt data i)) (lookAheadAt data i) \<le> length (windowAt data i)"
      by (intro lcp_drop_le) simp
    with r show ?thesis by simp
  qed
qed


section \<open>The codes of a tree\<close>

text \<open>
  The calls \<open>codes.set(char, code)\<close> that \<open>generateCodes\<close> makes, in their order.
\<close>

fun assignments :: "HuffmanNode option \<Rightarrow> jsstring \<Rightarrow> (jsstring \<times> jsstring) list" where
  "assignments None code = []"
| "assignments (Some (HuffmanNode (Some c) f l r)) code =
     [(c, if code = [] then js ''0'' else code)]"
| "assignments (Some (HuffmanNode None f l r)) code =
     assignments l (code @ js ''0'') @ assignments r (code @ js ''1'')"

lemma generateCodes_assignments:
  "generateCodes t code codes =
     foldl (\<lambda>m (k, v). map_set m k v) codes (assignments t code)"
  by (induction t code codes rule: generateCodes.induct) simp_all

lemma map_of_map_set: "map_of (map_set m k v) = (map_of m)(k \<mapsto> v)"
  by (induction m) auto

lemma map_of_foldl_map_set:
  "map_of (foldl (\<lambda>m (k, v). map_set m k v) m0 as) k = Some v \<Longrightarrow>
   (k, v) \<in> set as \<or> map_of m0 k = Some v"
proof (induction as arbitrary: m0)
  case Nil
  then show ?case by simp
next
  case (Cons a as)
  obtain k' v' where a: "a = (k', v')" by (cases a)
  from Cons.prems have "map_of (foldl (\<lambda>m (k, v). map_set m k v) (map_set m0 k' v') as) k = Some v"
    by (simp add: a)
  then have "(k, v) \<in> set as \<or> map_of (map_set m0 k' v') k = Some v"
    by (rule Cons.IH)
  then show ?case
    by (auto simp: a map_of_map_set split: if_splits)
qed

lemma assignments_prefix: "(k, v) \<in> set (assignments t code) \<Longrightarrow> prefix code v"
proof (induction t code rule: assignments.induct)
  case (1 code)
  then show ?case by simp
next
  case (2 c f l r code)
  then show ?case by (auto split: if_splits)
next
  case (3 f l r code)
  from 3(3) have "(k, v) \<in> set (assignments l (code @ js ''0'')) \<or>
      (k, v) \<in> set (assignments r (code @ js ''1''))" by simp
  then have "prefix (code @ js ''0'') v \<or> prefix (code @ js ''1'') v"
    using 3(1,2) by blast
  then show ?case by (auto dest: append_prefixD)
qed

lemma branches_incomparable:
  assumes "prefix (code @ js ''0'') v" and "prefix (code @ js ''1'') w"
  shows "\<not> prefix v w \<and> \<not> prefix w v"
proof -
  from assms obtain x y where v: "v = code @ js ''0'' @ x" and w: "w = code @ js ''1'' @ y"
    by (auto simp: prefix_def)
  show ?thesis by (simp add: v w js_def)
qed

lemma assignments_incomparable:
  "(k1, v1) \<in> set (assignments t code) \<Longrightarrow> (k2, v2) \<in> set (assignments t code) \<Longrightarrow>
   k1 \<noteq> k2 \<Longrightarrow> \<not> prefix v1 v2"
proof (induction t code rule: assignments.induct)
  case (1 code)
  then show ?case by simp
next
  case (2 c f l r code)
  then show ?case by simp
next
  case (3 f l r code)
  let ?L = "assignments l (code @ js ''0'')" and ?R = "assignments r (code @ js ''1'')"
  from 3(3) have m1: "(k1, v1) \<in> set ?L \<or> (k1, v1) \<in> set ?R" by simp
  from 3(4) have m2: "(k2, v2) \<in> set ?L \<or> (k2, v2) \<in> set ?R" by simp
  from m1 m2 consider
      (ll) "(k1, v1) \<in> set ?L" "(k2, v2) \<in> set ?L"
    | (rr) "(k1, v1) \<in> set ?R" "(k2, v2) \<in> set ?R"
    | (lr) "(k1, v1) \<in> set ?L" "(k2, v2) \<in> set ?R"
    | (rl) "(k1, v1) \<in> set ?R" "(k2, v2) \<in> set ?L"
    by blast
  then show ?case
  proof cases
    case ll
    then show ?thesis using 3(1,5) by blast
  next
    case rr
    then show ?thesis using 3(2,5) by blast
  next
    case lr
    then have "prefix (code @ js ''0'') v1" and "prefix (code @ js ''1'') v2"
      by (auto dest: assignments_prefix)
    then show ?thesis using branches_incomparable by blast
  next
    case rl
    then have "prefix (code @ js ''0'') v2" and "prefix (code @ js ''1'') v1"
      by (auto dest: assignments_prefix)
    then show ?thesis using branches_incomparable by blast
  qed
qed

lemma generateCodes_prefix_free:
  assumes "map_of (generateCodes t [] []) a = Some ca"
    and "map_of (generateCodes t [] []) b = Some cb" and "a \<noteq> b"
  shows "\<not> prefix ca cb"
proof -
  have "(a, ca) \<in> set (assignments t [])"
    using assms(1) map_of_foldl_map_set [of "[]" "assignments t []" a ca]
    by (simp add: generateCodes_assignments)
  moreover have "(b, cb) \<in> set (assignments t [])"
    using assms(2) map_of_foldl_map_set [of "[]" "assignments t []" b cb]
    by (simp add: generateCodes_assignments)
  ultimately show ?thesis using assms(3) by (rule assignments_incomparable)
qed

lemma frequency_one_symbol:
  "\<forall>c \<in> set cps. c = s \<Longrightarrow>
   foldl (\<lambda>freqTable char.
            map_set freqTable char
              ((case map_of freqTable char of None \<Rightarrow> 0 | Some n \<Rightarrow> n) + 1))
     [(s, n)] cps = [(s, n + length cps)]"
  by (induction cps arbitrary: n) simp_all

lemma buildFrequencyTable_one_symbol:
  assumes "set (codePoints data) = {s}"
  shows "buildFrequencyTable data = [(s, length (codePoints data))]"
proof -
  from assms obtain c cps where cps: "codePoints data = c # cps"
    by (cases "codePoints data") auto
  with assms have c: "c = s" and rest: "\<forall>c \<in> set cps. c = s" by auto
  show ?thesis
    using frequency_one_symbol [OF rest, of 1] by (simp add: buildFrequencyTable_def cps c)
qed

section \<open>Properties of Run-Length Encoding\<close>

text \<open>
  Claim C7. The output of \<open>rleCompress\<close> is the concatenation, over the maximal runs
  of the input (cut at 255), of one token per run: a run longer than 3 is emitted as its
  count followed by the symbol; a run of length 2 or 3 is emitted in that form only when
  the symbol is not alphanumeric; every other run is emitted literally. The runs, each
  of length 1 to 255, make up the input. In particular \<open>"aaaabbbccc"\<close> is compressed
  to \<open>"4abbbccc"\<close>.
\<close>

theorem rle_encoding_policy:
  "compressedData (rleCompress x) =
     concat (map (\<lambda>(n, c). if n > 3 then numberToString n @ [c]
                            else if 2 \<le> n \<and> \<not> isAlnum c then numberToString n @ [c]
                            else replicate n c) (rleRuns x))
   \<and> concat (map (\<lambda>(n, c). replicate n c) (rleRuns x)) = x
   \<and> (\<forall>(n, c) \<in> set (rleRuns x). 1 \<le> n \<and> n \<le> 255)
   \<and> compressedData (rleCompress (js ''aaaabbbccc'')) = js ''4abbbccc''"
proof -
  have emit: "(\<lambda>(n, c). rleEmit n c) =
      (\<lambda>(n, c). if n > 3 then numberToString n @ [c]
                 else if 2 \<le> n \<and> \<not> isAlnum c then numberToString n @ [c]
                 else replicate n c)"
    by (auto simp: rleEmit_def fun_eq_iff)
  have "compressedData (rleCompress x) = concat (map (\<lambda>(n, c). rleEmit n c) (rleRuns x))"
    using rleLoop_runs [of x 0 "[]"] by (simp add: rleCompress_def)
  then have "compressedData (rleCompress x) =
     concat (map (\<lambda>(n, c). if n > 3 then numberToString n @ [c]
                            else if 2 \<le> n \<and> \<not> isAlnum c then numberToString n @ [c]
                            else replicate n c) (rleRuns x))"
    by (simp only: emit)
  moreover have "\<forall>(n, c) \<in> set (rleRuns x). 1 \<le> n \<and> n \<le> 255"
    using rleRuns_set by blast
  moreover have "compressedData (rleCompress (js ''aaaabbbccc'')) = js ''4abbbccc''"
    by code_simp
  ultimately show ?thesis using rleRuns_concat by blast
qed

text \<open>The policy at an input with a long run, a short non-alphanumeric run and a short
  alphanumeric run.\<close>

theorem rle_encoding_policy_witness:
  "rleRuns (js ''aaaa!!bbb'') = [(4, 97), (2, 33), (3, 98)]
   \<and> compressedData (rleCompress (js ''aaaa!!bbb'')) = js ''4a2!bbb''
   \<and> list_all (\<lambda>(n, c). 1 \<le> n \<and> n \<le> 255) (rleRuns (js ''aaaa!!bbb''))"
proof -
  have r: "rleRuns (js ''aaaa!!bbb'') = [(4, 97), (2, 33), (3, 98)]" by code_simp
  have c: "compressedData (rleCompress (js ''aaaa!!bbb'')) = js ''4a2!bbb''" by code_simp
  from rle_encoding_policy [of "js ''aaaa!!bbb''"]
  have "\<forall>(n, c) \<in> set (rleRuns (js ''aaaa!!bbb'')). 1 \<le> n \<and> n \<le> 255" by blast
  then have "list_all (\<lambda>(n, c). 1 \<le> n \<and> n \<le> 255) (rleRuns (js ''aaaa!!bbb''))"
    by (simp only: list_all_iff)
  with r c show ?thesis by blast
qed

text \<open>
  Claim C2, as stated, fails: the input \<open>"1a"\<close> has no run to encode and is emitted
  literally as \<open>"1a"\<close>, which the decoder reads as the count 1 followed by \<open>a\<close>.
\<close>

theorem rle_roundtrip_counterexample:
  "rleDecompress (compressedData (rleCompress (js ''1a''))) = Inr (js ''a'')
   \<and> js ''a'' \<noteq> js ''1a''"
  by code_simp

text \<open>
  Claim C2, amended. \<open>rleDecompress\<close> applied to the \<open>compressedData\<close> of
  \<open>rleCompress(x)\<close> returns exactly \<open>x\<close> if and only if \<open>x\<close> contains no decimal
  digit; the empty sequence is such an input. The format has no escape for a digit of
  the input, which the decoder always reads as part of a count.
\<close>

theorem rle_roundtrip_iff_no_digit:
  "(rleDecompress (compressedData (rleCompress x)) = Inr x) = (\<forall>c \<in> set x. \<not> isDigit c)"
proof
  assume "rleDecompress (compressedData (rleCompress x)) = Inr x"
  then have "rleDecLoop (rleLoop x 0 []) 0 [] = Inr x"
    by (simp add: rleDecompress_def rleCompress_def)
  then show "\<forall>c \<in> set x. \<not> isDigit c"
    by (rule rleDecLoop_no_digit) simp
next
  assume "\<forall>c \<in> set x. \<not> isDigit c"
  then show "rleDecompress (compressedData (rleCompress x)) = Inr x"
    by (simp add: rleDecompress_def rleCompress_def rle_roundtrip_digit_free)
qed

text \<open>The equivalence at a digit-free input and at the empty input.\<close>

theorem rle_roundtrip_iff_no_digit_witness:
  "list_all (\<lambda>c. \<not> isDigit c) (js ''aaaab!!'')
   \<and> rleDecompress (compressedData (rleCompress (js ''aaaab!!''))) = Inr (js ''aaaab!!'')
   \<and> rleDecompress (compressedData (rleCompress [])) = Inr []"
proof -
  have h: "list_all (\<lambda>c. \<not> isDigit c) (js ''aaaab!!'')" by code_simp
  then have "\<forall>c \<in> set (js ''aaaab!!''). \<not> isDigit c" by (simp only: list_all_iff)
  moreover have "\<forall>c \<in> set ([] :: jsstring). \<not> isDigit c" by simp
  ultimately show ?thesis
    using h rle_roundtrip_iff_no_digit [of "js ''aaaab!!''"] rle_roundtrip_iff_no_digit [of "[]"]
    by blast
qed

text \<open>
  Claim C10. For every input \<open>x\<close> that contains no decimal digit character,
  \<open>rleDecompress(rleCompress(x).compressedData)\<close> is \<open>x\<close>.
\<close>

theorem rle_roundtrip_without_digits:
  assumes "\<forall>c \<in> set x. \<not> isDigit c"
  shows "rleDecompress (compressedData (rleCompress x)) = Inr x"
  using assms by (simp add: rleDecompress_def rleCompress_def rle_roundtrip_digit_free)

text \<open>The round trip at a digit-free input with runs of letters and of spaces.\<close>

theorem rle_roundtrip_without_digits_witness:
  "list_all (\<lambda>c. \<not> isDigit c) (js ''xxxxxyy  z'')
   \<and> rleDecompress (compressedData (rleCompress (js ''xxxxxyy  z''))) = Inr (js ''xxxxxyy  z'')"
proof -
  have h: "list_all (\<lambda>c. \<not> isDigit c) (js ''xxxxxyy  z'')" by code_simp
  then have "\<forall>c \<in> set (js ''xxxxxyy  z''). \<not> isDigit c" by (simp only: list_all_iff)
  then show ?thesis using h rle_roundtrip_without_digits by blast
qed

section \<open>Properties of LZ77 and of decompression\<close>

text \<open>
  When \<open>JSON.parse\<close> gives back the array that \<open>JSON.stringify\<close> serialised,
  \<open>lz77Decompress\<close> applied to the payload of \<open>lz77Compress\<close> is the replay of the
  triples that the encoder's loop emitted.
\<close>

lemma lz77Decompress_lz77Compress:
  "parse (stringify (lz77Loop data 0 [])) = Inr (lz77Loop data 0 []) \<Longrightarrow>
   lz77Decompress parse (compressedData (lz77Compress stringify data)) =
     Inr (lz77Replay (lz77Loop data 0 []) [])"
  by (simp add: lz77Decompress_def lz77Compress_def)

text \<open>
  Claim C1 fails on the code. The encoder stores in each triple the symbol that follows
  the match, and the decoder appends it, but the cursor advances by
  \<open>Math.max(1, bestMatch.length)\<close> only: after a match of positive length the symbol
  already stored as \<open>nextChar\<close> is encoded a second time. For the input \<open>"aab"\<close> the
  triples emitted by \<open>lz77Compress\<close> decode to \<open>"aabb"\<close>.
\<close>

theorem lz77_roundtrip_fails:
  "lz77Loop (js ''aab'') 0 [] =
     [\<lparr>offset = 0, length_tok = 0, nextChar = js ''a''\<rparr>,
      \<lparr>offset = 1, length_tok = 1, nextChar = js ''b''\<rparr>,
      \<lparr>offset = 0, length_tok = 0, nextChar = js ''b''\<rparr>]
   \<and> lz77Replay (lz77Loop (js ''aab'') 0 []) [] = js ''aabb''
   \<and> js ''aabb'' \<noteq> js ''aab''"
  by code_simp

text \<open>
  Claim C3, as stated, fails: for the input \<open>"aaaa"\<close> the encoder emits three triples,
  and the back-reference that follows the literal has length 1, not the rest of the run.
\<close>

theorem lz77_aaaa_three_triples:
  "lz77Loop (js ''aaaa'') 0 [] =
     [\<lparr>offset = 0, length_tok = 0, nextChar = js ''a''\<rparr>,
      \<lparr>offset = 1, length_tok = 1, nextChar = js ''a''\<rparr>,
      \<lparr>offset = 2, length_tok = 2, nextChar = []\<rparr>]"
  by code_simp

text \<open>
  Claim C3, amended. The match search compares the look-ahead with symbols of the
  window only, so a match never extends past the end of the window: in every triple
  emitted by \<open>lz77Compress\<close> the length is at most the offset. For the input \<open>"aaaa"\<close>
  the first triple is the literal \<open>a\<close> and the second is a back-reference of offset 1
  and length 1.
\<close>

theorem lz77_matches_stay_in_window:
  "(\<forall>t \<in> set (lz77Loop data 0 []). length_tok t \<le> offset t)
   \<and> take 2 (lz77Loop (js ''aaaa'') 0 []) =
       [\<lparr>offset = 0, length_tok = 0, nextChar = js ''a''\<rparr>,
        \<lparr>offset = 1, length_tok = 1, nextChar = js ''a''\<rparr>]"
proof
  show "\<forall>t \<in> set (lz77Loop data 0 []). length_tok t \<le> offset t"
  proof
    fix t assume "t \<in> set (lz77Loop data 0 [])"
    then obtain k where "t = lz77Token data k" using lz77Loop_tokens by fastforce
    then show "length_tok t \<le> offset t"
      using findBestMatch_in_window [of data k] by (simp add: lz77Token_def Let_def)
  qed
next
  show "take 2 (lz77Loop (js ''aaaa'') 0 []) =
       [\<lparr>offset = 0, length_tok = 0, nextChar = js ''a''\<rparr>,
        \<lparr>offset = 1, length_tok = 1, nextChar = js ''a''\<rparr>]"
    by code_simp
qed

text \<open>The bound at an input whose last triple is a match of the whole window.\<close>

theorem lz77_matches_stay_in_window_witness:
  "lz77Loop (js ''abab'') 0 [] =
     [\<lparr>offset = 0, length_tok = 0, nextChar = js ''a''\<rparr>,
      \<lparr>offset = 0, length_tok = 0, nextChar = js ''b''\<rparr>,
      \<lparr>offset = 2, length_tok = 2, nextChar = []\<rparr>]
   \<and> list_all (\<lambda>t. length_tok t \<le> offset t) (lz77Loop (js ''abab'') 0 [])"
proof -
  have "lz77Loop (js ''abab'') 0 [] =
     [\<lparr>offset = 0, length_tok = 0, nextChar = js ''a''\<rparr>,
      \<lparr>offset = 0, length_tok = 0, nextChar = js ''b''\<rparr>,
      \<lparr>offset = 2, length_tok = 2, nextChar = []\<rparr>]"
    by code_simp
  moreover have "list_all (\<lambda>t. length_tok t \<le> offset t) (lz77Loop (js ''abab'') 0 [])"
    using lz77_matches_stay_in_window [of "js ''abab''"] by (simp only: list_all_iff) blast
  ultimately show ?thesis by blast
qed

text \<open>
  Claim C4, as stated, fails: at the cursor 2 of the input \<open>"aaa"\<close> the window is
  \<open>"aa"\<close> and the look-ahead \<open>"a"\<close>; both window positions match with length 1, and the
  triple emitted there, the last one, has offset 2, not the smaller offset 1.
\<close>

theorem lz77_tie_break_counterexample:
  "last (lz77Loop (js ''aaa'') 0 []) = lz77Token (js ''aaa'') 2
   \<and> lz77Token (js ''aaa'') 2 = \<lparr>offset = 2, length_tok = 1, nextChar = []\<rparr>
   \<and> windowAt (js ''aaa'') 2 = js ''aa''
   \<and> lookAheadAt (js ''aaa'') 2 = js ''a''
   \<and> lcp (drop 0 (windowAt (js ''aaa'') 2)) (lookAheadAt (js ''aaa'') 2) = 1
   \<and> lcp (drop 1 (windowAt (js ''aaa'') 2)) (lookAheadAt (js ''aaa'') 2) = 1
   \<and> length (windowAt (js ''aaa'') 2) - 1 = 1"
  by code_simp

text \<open>
  Claim C4, amended. Every triple emitted by \<open>lz77Compress\<close> is the triple of some
  cursor position \<open>i\<close>. Its length is the greatest common-prefix length of the look-ahead
  with the window read from any start position \<open>j\<close>; among the start positions that
  reach this length (when it is positive) the triple carries the largest offset, that
  is, the earliest occurrence in the window: the comparison \<open>matchLength > bestMatch.length\<close>
  is strict and \<open>j\<close> ascends. With no match at all, offset and length are 0.
\<close>

theorem lz77_tie_break_earliest:
  "(\<forall>t \<in> set (lz77Loop data 0 []). \<exists>i < length data. t = lz77Token data i)
   \<and> (j < length (windowAt data i) \<longrightarrow>
        lcp (drop j (windowAt data i)) (lookAheadAt data i) \<le> length_tok (lz77Token data i))
   \<and> (j < length (windowAt data i) \<and> 0 < length_tok (lz77Token data i) \<and>
        lcp (drop j (windowAt data i)) (lookAheadAt data i) = length_tok (lz77Token data i) \<longrightarrow>
        length (windowAt data i) - j \<le> offset (lz77Token data i))
   \<and> (0 < length_tok (lz77Token data i) \<longrightarrow>
        (\<exists>k < length (windowAt data i).
           lcp (drop k (windowAt data i)) (lookAheadAt data i) = length_tok (lz77Token data i) \<and>
           offset (lz77Token data i) = length (windowAt data i) - k))
   \<and> (length_tok (lz77Token data i) = 0 \<longrightarrow> offset (lz77Token data i) = 0)"
proof -
  let ?w = "windowAt data i" and ?l = "lookAheadAt data i"
  let ?cp = "\<lambda>k. lcp (drop k ?w) ?l"
  have tok: "length_tok (lz77Token data i) = snd (findBestMatch data i)"
    "offset (lz77Token data i) = fst (findBestMatch data i)"
    by (simp_all add: lz77Token_def Let_def)
  have A: "\<forall>t \<in> set (lz77Loop data 0 []). \<exists>i < length data. t = lz77Token data i"
    using lz77Loop_tokens [of _ data 0 "[]"] by fastforce
  have B: "j < length ?w \<longrightarrow> ?cp j \<le> length_tok (lz77Token data i)"
    using findBestMatch_maximal [of j data i] by (simp add: tok)
  note cases = findBestMatch_cases [of data i]
  have C: "j < length ?w \<and> 0 < length_tok (lz77Token data i) \<and>
        ?cp j = length_tok (lz77Token data i) \<longrightarrow>
        length ?w - j \<le> offset (lz77Token data i)"
  proof (intro impI, elim conjE)
    assume j: "j < length ?w" and pos: "0 < length_tok (lz77Token data i)"
      and eq: "?cp j = length_tok (lz77Token data i)"
    from cases pos obtain k where k: "k < length ?w"
      and r: "findBestMatch data i = (length ?w - k, ?cp k)"
      and first: "\<forall>k' < k. ?cp k' < ?cp k"
      by (auto simp: tok)
    have "\<not> j < k" using first eq r by (auto simp: tok)
    then have "k \<le> j" by simp
    then show "length ?w - j \<le> offset (lz77Token data i)" using r by (simp add: tok)
  qed
  have D: "0 < length_tok (lz77Token data i) \<longrightarrow>
        (\<exists>k < length ?w. ?cp k = length_tok (lz77Token data i) \<and>
           offset (lz77Token data i) = length ?w - k)"
    using cases by (auto simp: tok)
  have E: "length_tok (lz77Token data i) = 0 \<longrightarrow> offset (lz77Token data i) = 0"
    using cases by (auto simp: tok)
  from A B C D E show ?thesis by blast
qed

text \<open>
  At the cursor 6 of \<open>"abcabcabc"\<close> the window positions 0 and 3 both match with length
  3; the triple has the offset 6 of position 0.
\<close>

theorem lz77_tie_break_earliest_witness:
  "lz77Token (js ''abcabcabc'') 6 = \<lparr>offset = 6, length_tok = 3, nextChar = []\<rparr>
   \<and> (3::nat) < length (windowAt (js ''abcabcabc'') 6)
   \<and> lcp (drop 3 (windowAt (js ''abcabcabc'') 6)) (lookAheadAt (js ''abcabcabc'') 6) = 3
   \<and> length (windowAt (js ''abcabcabc'') 6) - 3 \<le> offset (lz77Token (js ''abcabcabc'') 6)"
proof -
  have t: "lz77Token (js ''abcabcabc'') 6 = \<lparr>offset = 6, length_tok = 3, nextChar = []\<rparr>"
    by code_simp
  have w: "(3::nat) < length (windowAt (js ''abcabcabc'') 6)" by code_simp
  have c: "lcp (drop 3 (windowAt (js ''abcabcabc'') 6)) (lookAheadAt (js ''abcabcabc'') 6) = 3"
    by code_simp
  have "length (windowAt (js ''abcabcabc'') 6) - 3 \<le> offset (lz77Token (js ''abcabcabc'') 6)"
    using lz77_tie_break_earliest [of "js ''abcabcabc''" 3 6] t w c by simp
  with t w c show ?thesis by blast
qed

text \<open>
  Claim C5, as stated, fails: asked to decode a Huffman payload, \<open>decompressData\<close>
  returns a string as its normal result.
\<close>

theorem decompressData_huffman_returns_message:
  "decompressData (\<lambda>s. Inl SyntaxError) (js ''0110'') (js ''Huffman Coding'') =
     Inr (js ''Huffman decompression requires the original code table'')"
  by (simp add: decompressData_def js_def)

text \<open>
  Claim C5, amended. For every algorithm name other than \<open>Run-Length Encoding\<close>,
  \<open>LZ77\<close> and \<open>Huffman Coding\<close>, \<open>decompressData\<close> throws an error with the message
  \<open>Unsupported algorithm:\<close> followed by the name. For \<open>Huffman Coding\<close> it does not
  fail: whatever the payload, it returns the fixed text
  \<open>Huffman decompression requires the original code table\<close>.
\<close>

theorem decompressData_errors:
  "(algorithmName \<notin> {js ''Run-Length Encoding'', js ''LZ77'', js ''Huffman Coding''} \<longrightarrow>
      decompressData parse compressed algorithmName =
        Inl (Error (js ''Unsupported algorithm: '' @ algorithmName)))
   \<and> decompressData parse compressed (js ''Huffman Coding'') =
        Inr (js ''Huffman decompression requires the original code table'')"
  by (simp add: decompressData_def js_def)

text \<open>An unknown algorithm name.\<close>

theorem decompressData_errors_witness:
  "js ''gzip'' \<notin> {js ''Run-Length Encoding'', js ''LZ77'', js ''Huffman Coding''}
   \<and> decompressData (\<lambda>s. Inl SyntaxError) (js ''abc'') (js ''gzip'') =
        Inl (Error (js ''Unsupported algorithm: gzip''))"
proof -
  have h: "js ''gzip'' \<notin> {js ''Run-Length Encoding'', js ''LZ77'', js ''Huffman Coding''}"
    by (simp add: js_def)
  then show ?thesis
    using decompressData_errors [of "js ''gzip''" "\<lambda>s. Inl SyntaxError" "js ''abc''"]
    by (simp add: js_def)
qed

section \<open>Properties of Huffman coding and of the empty input\<close>

text \<open>
  Claim C6. For every input string, the code table produced by
  \<open>generateCodes(buildHuffmanTree(buildFrequencyTable(input)))\<close> is prefix-free: for
  distinct symbols \<open>a\<close> and \<open>b\<close> of the table, neither code is a prefix of the other.
\<close>

theorem huffman_codes_prefix_free:
  assumes "codes = generateCodes (buildHuffmanTree (buildFrequencyTable input)) [] []"
    and "map_of codes a = Some ca" and "map_of codes b = Some cb" and "a \<noteq> b"
  shows "\<not> prefix ca cb \<and> \<not> prefix cb ca"
proof -
  let ?t = "buildHuffmanTree (buildFrequencyTable input)"
  have a: "map_of (generateCodes ?t [] []) a = Some ca"
    and b: "map_of (generateCodes ?t [] []) b = Some cb"
    using assms(1,2,3) by simp_all
  have "\<not> prefix ca cb" using a b assms(4) by (rule generateCodes_prefix_free)
  moreover have "\<not> prefix cb ca" using b a assms(4) [symmetric] by (rule generateCodes_prefix_free)
  ultimately show ?thesis by simp
qed

text \<open>The code table of \<open>"abracadabra"\<close> and two of its codes.\<close>

theorem huffman_codes_prefix_free_witness:
  "generateCodes (buildHuffmanTree (buildFrequencyTable (js ''abracadabra''))) [] [] =
     [(js ''a'', js ''0''), (js ''c'', js ''100''), (js ''d'', js ''101''),
      (js ''b'', js ''110''), (js ''r'', js ''111'')]
   \<and> \<not> prefix (js ''0'') (js ''110'') \<and> \<not> prefix (js ''110'') (js ''0'')"
proof -
  let ?codes = "generateCodes (buildHuffmanTree (buildFrequencyTable (js ''abracadabra''))) [] []"
  have c: "?codes = [(js ''a'', js ''0''), (js ''c'', js ''100''), (js ''d'', js ''101''),
      (js ''b'', js ''110''), (js ''r'', js ''111'')]"
    by code_simp
  have a: "map_of ?codes (js ''a'') = Some (js ''0'')" unfolding c by (simp add: js_def)
  have b: "map_of ?codes (js ''b'') = Some (js ''110'')" unfolding c by (simp add: js_def)
  have ne: "js ''a'' \<noteq> js ''b''" by (simp add: js_def)
  from huffman_codes_prefix_free [OF refl a b ne] c show ?thesis by blast
qed

text \<open>
  Claim C8. For every non-empty input with exactly one distinct symbol, the generated
  code table maps that symbol to the one-bit code \<open>"0"\<close>, which is not the empty string.
  The symbols of the Huffman coder are the code points of the input.
\<close>

theorem huffman_single_symbol_code:
  assumes "data \<noteq> []" and "set (codePoints data) = {s}"
  shows "generateCodes (buildHuffmanTree (buildFrequencyTable data)) [] [] = [(s, js ''0'')]
    \<and> map_of (generateCodes (buildHuffmanTree (buildFrequencyTable data)) [] []) s =
        Some (js ''0'')
    \<and> js ''0'' \<noteq> []"
proof -
  have "buildFrequencyTable data = [(s, length (codePoints data))]"
    using assms(2) by (rule buildFrequencyTable_one_symbol)
  then have "buildHuffmanTree (buildFrequencyTable data) =
      Some (HuffmanNode (Some s) (length (codePoints data)) None None)"
    by (simp add: buildHuffmanTree_def)
  then show ?thesis by (simp add: js_def)
qed

text \<open>The input \<open>"aaaa"\<close>.\<close>

theorem huffman_single_symbol_code_witness:
  "js ''aaaa'' \<noteq> [] \<and> set (codePoints (js ''aaaa'')) = {js ''a''}
   \<and> map_of (generateCodes (buildHuffmanTree (buildFrequencyTable (js ''aaaa''))) [] [])
        (js ''a'') = Some (js ''0'')"
proof -
  have n: "js ''aaaa'' \<noteq> []" by (simp add: js_def)
  have s: "set (codePoints (js ''aaaa'')) = {js ''a''}"
    by (simp add: js_def isHighSurrogate_def)
  from huffman_single_symbol_code [OF n s] n s show ?thesis by blast
qed

text \<open>
  Claim C9, as stated, fails for Huffman: decoding the payload of \<open>huffmanCompress("")\<close>
  with the name \<open>Huffman Coding\<close> returns a text of 54 characters, not the empty
  sequence.
\<close>

theorem empty_huffman_decode_not_empty:
  "decompressData (\<lambda>s. Inl SyntaxError) (compressedData (huffmanCompress []))
       (js ''Huffman Coding'') =
     Inr (js ''Huffman decompression requires the original code table'')
   \<and> js ''Huffman decompression requires the original code table'' \<noteq> []"
  by (simp add: decompressData_def js_def)

text \<open>
  Claim C9, amended. \<open>huffmanCompress("")\<close>, \<open>rleCompress("")\<close> and \<open>lz77Compress("")\<close>
  each return \<open>originalSize = 0\<close>. \<open>decompressData\<close> returns the empty sequence for
  the empty-input payload of Run-Length Encoding and, \<open>JSON.parse\<close> giving back the
  empty array that \<open>JSON.stringify\<close> serialised, for that of LZ77. For the payload of
  Huffman Coding it returns the fixed text
  \<open>Huffman decompression requires the original code table\<close>.
\<close>

theorem empty_input:
  "originalSize (huffmanCompress []) = 0
   \<and> originalSize (rleCompress []) = 0
   \<and> originalSize (lz77Compress stringify []) = 0
   \<and> decompressData parse (compressedData (rleCompress [])) (js ''Run-Length Encoding'') = Inr []
   \<and> (parse (stringify []) = Inr [] \<longrightarrow>
        decompressData parse (compressedData (lz77Compress stringify [])) (js ''LZ77'') = Inr [])
   \<and> decompressData parse (compressedData (huffmanCompress [])) (js ''Huffman Coding'') =
        Inr (js ''Huffman decompression requires the original code table'')"
proof -
  have h: "originalSize (huffmanCompress []) = 0"
    by (simp add: huffmanCompress_def Let_def blobSize_def)
  have r: "originalSize (rleCompress []) = 0" by (simp add: rleCompress_def blobSize_def)
  have l: "originalSize (lz77Compress stringify []) = 0"
    by (simp add: lz77Compress_def blobSize_def)
  have rl: "rleLoop [] 0 [] = []" by (subst rleLoop.simps) simp
  have rd: "rleDecLoop [] 0 [] = Inr []" by (subst rleDecLoop.simps) simp
  have dr: "decompressData parse (compressedData (rleCompress [])) (js ''Run-Length Encoding'') =
      Inr []"
    by (simp add: decompressData_def rleCompress_def rleDecompress_def rl rd)
  have ll: "lz77Loop [] 0 [] = []" by (subst lz77Loop.simps) simp
  have dl: "parse (stringify []) = Inr [] \<longrightarrow>
      decompressData parse (compressedData (lz77Compress stringify [])) (js ''LZ77'') = Inr []"
    by (simp add: decompressData_def lz77Compress_def lz77Decompress_def ll js_def)
  have dh: "decompressData parse (compressedData (huffmanCompress [])) (js ''Huffman Coding'') =
      Inr (js ''Huffman decompression requires the original code table'')"
    by (simp add: decompressData_def js_def)
  from h r l dr dl dh show ?thesis by blast
qed

text \<open>With a serialiser that writes \<open>[]\<close> and a parser that reads it back.\<close>

theorem empty_input_witness:
  "(\<lambda>s. if s = js ''[]'' then Inr [] else Inl SyntaxError) ((\<lambda>ts. js ''[]'') []) = Inr []
   \<and> decompressData (\<lambda>s. if s = js ''[]'' then Inr [] else Inl SyntaxError)
        (compressedData (lz77Compress (\<lambda>ts. js ''[]'') [])) (js ''LZ77'') = Inr []"
  using empty_input [of "\<lambda>ts. js ''[]''" "\<lambda>s. if s = js ''[]'' then Inr [] else Inl SyntaxError"]
  by simp

end
